theory Spec2Isabelle
  imports Main "HOL-Library.Word"
begin

section \<open>Values and errors\<close>

text \<open>
  Python's unbounded integers are \<open>int\<close>; a \<open>bytes\<close> value is a list of 8-bit words.
  Every exception the modelled code can raise is a value of \<open>error\<close>, and a function
  that may raise returns \<open>error + 'a\<close> with \<open>Inl\<close> for the exception.
\<close>

datatype error =
    ValueError | OverflowError | AssertionError | TypeError
  | AttributeError | ZeroDivisionError | IndexError

type_synonym byte = "8 word"
type_synonym bytes = "byte list"

text \<open>Sequencing of two computations that may raise: the first exception wins.\<close>

definition bindE :: "error + 'a \<Rightarrow> ('a \<Rightarrow> error + 'b) \<Rightarrow> error + 'b" where
  "bindE m f = (case m of Inl e \<Rightarrow> Inl e | Inr v \<Rightarrow> f v)"

section \<open>Helper functions\<close>

subsection \<open>\<open>inv\<close>: the extended Euclidean algorithm\<close>

text \<open>
  The \<open>while r != 0\<close> loop of \<open>inv\<close> on the six loop variables. Python's \<open>//\<close> is
  floor division, which is \<open>div\<close> on \<open>int\<close>.
\<close>

function inv_loop :: "int \<Rightarrow> int \<Rightarrow> int \<Rightarrow> int \<Rightarrow> int \<Rightarrow> int \<Rightarrow> int \<times> int \<times> int" where
  "inv_loop old_r r old_s s old_t t =
     (if r \<noteq> 0 then
        (let quotient = old_r div r in
         inv_loop r (old_r - quotient * r) s (old_s - quotient * s) t (old_t - quotient * t))
      else (old_r, old_s, old_t))"
  by pat_completeness auto
termination
proof (relation "measure (\<lambda>(old_r, r, old_s, s, old_t, t). nat \<bar>r\<bar>)")
  show "wf (measure (\<lambda>(old_r, r, old_s, s, old_t, t). nat \<bar>r\<bar>))"
    by simp
next
  fix old_r r old_s s old_t t x :: int
  assume "r \<noteq> 0" and "x = old_r div r"
  then have "\<bar>old_r - x * r\<bar> < \<bar>r\<bar>"
    by (simp add: minus_div_mult_eq_mod abs_mod_less)
  then show "((r, old_r - x * r, s, old_s - x * s, t, old_t - x * t), (old_r, r, old_s, s, old_t, t))
      \<in> measure (\<lambda>(old_r, r, old_s, s, old_t, t). nat \<bar>r\<bar>)"
    by simp
qed

text \<open>
  \<open>inv(n, p)\<close>: the loop started at \<open>(n, p, 1, 0, 0, 1)\<close>, then \<open>x % p\<close>, which raises
  ZeroDivisionError when \<open>p\<close> is 0.
\<close>

definition inv_mod :: "int \<Rightarrow> int \<Rightarrow> error + int" where
  "inv_mod n p =
     (case inv_loop n p 1 0 0 1 of
        (g, x, y) \<Rightarrow> if p = 0 then Inl ZeroDivisionError else Inr (x mod p))"

declare inv_loop.simps [simp del]

subsection \<open>\<open>encode_int\<close> and \<open>encode_varint\<close>\<close>

text \<open>
  \<open>int.to_bytes(nbytes, order)\<close>: raises OverflowError for a negative integer and for one
  that does not fit in \<open>nbytes\<close> bytes.
\<close>

datatype byteorder = Little | Big

fun to_bytes_little :: "nat \<Rightarrow> int \<Rightarrow> bytes" where
  "to_bytes_little 0 i = []"
| "to_bytes_little (Suc k) i = word_of_int (i mod 256) # to_bytes_little k (i div 256)"

definition int_to_bytes :: "int \<Rightarrow> nat \<Rightarrow> byteorder \<Rightarrow> error + bytes" where
  "int_to_bytes i nbytes order =
     (if i < 0 \<or> 256 ^ nbytes \<le> i then Inl OverflowError
      else Inr (case order of
                  Little \<Rightarrow> to_bytes_little nbytes i
                | Big \<Rightarrow> rev (to_bytes_little nbytes i)))"

definition encode_int :: "int \<Rightarrow> nat \<Rightarrow> byteorder \<Rightarrow> error + bytes" where
  "encode_int i nbytes encoding = int_to_bytes i nbytes encoding"

text \<open>\<open>bytes([...])\<close> of a list of integers: ValueError unless each is in \<open>range(256)\<close>.\<close>

definition bytes_of_ints :: "int list \<Rightarrow> error + bytes" where
  "bytes_of_ints xs =
     (if list_all (\<lambda>x. 0 \<le> x \<and> x < 256) xs then Inr (map word_of_int xs)
      else Inl ValueError)"

definition encode_varint :: "int \<Rightarrow> error + bytes" where
  "encode_varint i =
     (if i < 0xfd then bytes_of_ints [i]
      else if i < 0x10000 then bindE (encode_int i 2 Little) (\<lambda>b. Inr (0xfd # b))
      else if i < 0x100000000 then bindE (encode_int i 4 Little) (\<lambda>b. Inr (0xfe # b))
      else if i < 0x10000000000000000 then bindE (encode_int i 8 Little) (\<lambda>b. Inr (0xff # b))
      else Inl ValueError)"

text \<open>The value of a little-endian byte string, to state what an encoding denotes.\<close>

fun little_endian_value :: "bytes \<Rightarrow> int" where
  "little_endian_value [] = 0"
| "little_endian_value (b # bs) = uint b + 256 * little_endian_value bs"

section \<open>Script\<close>

text \<open>
  A command of a script is typed \<open>Union[int, bytes]\<close>, but \<open>create_transaction_input\<close>
  stores a \<open>str\<close> (the hex digest of the public key) in the list, so the model has the
  three kinds of value that can reach \<open>Script.encode\<close>. A \<open>bool\<close> is an \<open>int\<close> in Python.
\<close>

datatype cmd = CInt int | CBytes bytes | CStr string

record Script =
  cmds :: "cmd list"

text \<open>
  The \<open>for cmd in self.cmds\<close> loop of \<open>Script.encode\<close>, returning the joined \<open>out\<close>: a
  command that is neither \<open>int\<close> nor \<open>bytes\<close> matches no branch.
\<close>

fun Script_encode_out :: "cmd list \<Rightarrow> error + bytes" where
  "Script_encode_out [] = Inr []"
| "Script_encode_out (CInt c # rest) =
     bindE (encode_int c 1 Little) (\<lambda>b. bindE (Script_encode_out rest) (\<lambda>r. Inr (b @ r)))"
| "Script_encode_out (CBytes c # rest) =
     (let len = int (length c) in
      if \<not> len < 75 then Inl AssertionError
      else bindE (encode_int len 1 Little)
             (\<lambda>b. bindE (Script_encode_out rest) (\<lambda>r. Inr (b @ c @ r))))"
| "Script_encode_out (CStr c # rest) = Script_encode_out rest"

definition Script_encode :: "Script \<Rightarrow> error + bytes" where
  "Script_encode self =
     bindE (Script_encode_out (cmds self))
       (\<lambda>ret. bindE (encode_varint (int (length ret))) (\<lambda>l. Inr (l @ ret)))"

section \<open>Transaction\<close>

record Transaction =
  version :: int
  locktime :: int

text \<open>The dictionary built by \<open>create_transaction_input\<close>, with its five fixed keys.\<close>

record transaction_input =
  prev_transaction_id :: bytes
  prev_transaction_idx :: int
  script_sig :: "Script option"
  sequence :: int
  prev_transaction_script_pubkey :: Script

definition create_transaction_input ::
    "bytes \<Rightarrow> int \<Rightarrow> string \<Rightarrow> Script option \<Rightarrow> int \<Rightarrow> transaction_input" where
  "create_transaction_input prev_id prev_idx publickey_hash sig seq =
     \<lparr> prev_transaction_id = prev_id,
       prev_transaction_idx = prev_idx,
       script_sig = sig,
       sequence = seq,
       prev_transaction_script_pubkey =
         \<lparr> cmds = [CInt 118, CInt 169, CStr publickey_hash, CInt 126, CInt 172] \<rparr> \<rparr>"

text \<open>
  The argument \<open>script_override\<close>: \<open>None\<close>, the booleans, or any other object (for which
  all three \<open>is\<close> tests fail).
\<close>

datatype override = NoOverride | Override bool | OtherOverride

definition encode_transaction_input :: "transaction_input \<Rightarrow> override \<Rightarrow> error + bytes" where
  "encode_transaction_input transaction_input script_override =
     bindE (encode_int (prev_transaction_idx transaction_input) 4 Little) (\<lambda>idx.
     bindE (case script_override of
              NoOverride \<Rightarrow>
                (case script_sig transaction_input of
                   None \<Rightarrow> Inl AttributeError
                 | Some sc \<Rightarrow> Script_encode sc)
            | Override True \<Rightarrow> Script_encode (prev_transaction_script_pubkey transaction_input)
            | Override False \<Rightarrow> Script_encode \<lparr> cmds = [] \<rparr>
            | OtherOverride \<Rightarrow> Inl ValueError) (\<lambda>script.
     bindE (encode_int (sequence transaction_input) 4 Little) (\<lambda>seq.
     Inr (rev (prev_transaction_id transaction_input) @ idx @ script @ seq))))"

record transaction_output =
  amount :: int
  script_pubkey :: Script

definition create_transaction_output :: "int \<Rightarrow> Script \<Rightarrow> transaction_output" where
  "create_transaction_output amt sc = \<lparr> amount = amt, script_pubkey = sc \<rparr>"

definition encode_transaction_output :: "transaction_output \<Rightarrow> error + bytes" where
  "encode_transaction_output transaction_output =
     bindE (encode_int (amount transaction_output) 8 Little) (\<lambda>a.
     bindE (Script_encode (script_pubkey transaction_output)) (\<lambda>sc.
     Inr (a @ sc)))"

text \<open>A list comprehension whose body may raise: elements are evaluated left to right.\<close>

fun mapE :: "('a \<Rightarrow> error + 'b) \<Rightarrow> 'a list \<Rightarrow> error + 'b list" where
  "mapE f [] = Inr []"
| "mapE f (x # xs) = bindE (f x) (\<lambda>y. bindE (mapE f xs) (\<lambda>ys. Inr (y # ys)))"

definition Transaction_encode ::
    "Transaction \<Rightarrow> transaction_input list \<Rightarrow> transaction_output list \<Rightarrow> int \<Rightarrow> error + bytes" where
  "Transaction_encode self transaction_inputs transaction_outputs sig_index =
     bindE (encode_int (version self) 4 Little) (\<lambda>ver.
     bindE (encode_varint (int (length transaction_inputs))) (\<lambda>n_in.
     bindE (if sig_index = -1
            then mapE (\<lambda>transaction_input. encode_transaction_input transaction_input NoOverride)
                   transaction_inputs
            else mapE (\<lambda>(i, transaction_input).
                     encode_transaction_input transaction_input (Override (sig_index = int i)))
                   (enumerate 0 transaction_inputs)) (\<lambda>ins.
     bindE (encode_varint (int (length transaction_outputs))) (\<lambda>n_out.
     bindE (mapE encode_transaction_output transaction_outputs) (\<lambda>outs.
     bindE (encode_int (locktime self) 4 Little) (\<lambda>lt.
     bindE (if sig_index \<noteq> -1 then encode_int 1 4 Little else Inr []) (\<lambda>sighash.
     Inr (ver @ n_in @ concat ins @ n_out @ concat outs @ lt @ sighash))))))))"

section \<open>Elliptic curve points\<close>

text \<open>
  The fields of the classes \<open>Curve\<close>, \<open>Generator\<close> and \<open>Signature\<close> carry the class as
  a prefix (\<open>curve_p\<close> for \<open>Curve.p\<close>, \<open>gen_n\<close> for \<open>Generator.n\<close>, \<open>sig_r\<close> for
  \<open>Signature.r\<close>), so that one-letter variables stay free.
\<close>

record Curve =
  curve_p :: int
  curve_a :: int
  curve_b :: int

text \<open>
  \<open>Point\<close> defines no \<open>__eq__\<close>, so \<open>==\<close> on points is object identity, and the only
  comparisons the code makes are against the module-level object \<open>INF\<close>. A point is
  therefore either that object (\<open>INF_point\<close>, since \<open>INF\<close> is taken by the syntax of infima), or some other object built by \<open>Point(curve, x, y)\<close>;
  the fields of the latter may be \<open>None\<close>, as those of \<open>INF\<close> are.
\<close>

datatype Point = INF_point | Point "Curve option" "int option" "int option"

fun curve_of :: "Point \<Rightarrow> Curve option" where
  "curve_of INF_point = None"
| "curve_of (Point c x y) = c"

fun x_of :: "Point \<Rightarrow> int option" where
  "x_of INF_point = None"
| "x_of (Point c x y) = x"

fun y_of :: "Point \<Rightarrow> int option" where
  "y_of INF_point = None"
| "y_of (Point c x y) = y"

text \<open>Arithmetic on \<open>None\<close> raises TypeError; an attribute of \<open>None\<close> raises AttributeError.\<close>

definition as_int :: "int option \<Rightarrow> error + int" where
  "as_int v = (case v of None \<Rightarrow> Inl TypeError | Some i \<Rightarrow> Inr i)"

definition as_curve :: "Curve option \<Rightarrow> error + Curve" where
  "as_curve v = (case v of None \<Rightarrow> Inl AttributeError | Some c \<Rightarrow> Inr c)"

text \<open>\<open>Point.__add__\<close>, with the operands evaluated in the order of the source.\<close>

definition Point_add :: "Point \<Rightarrow> Point \<Rightarrow> error + Point" where
  "Point_add self other =
     (if self = INF_point then Inr other
      else if other = INF_point then Inr self
      else if x_of self = x_of other \<and> y_of self \<noteq> y_of other then Inr INF_point
      else
        bindE (if x_of self = x_of other then
                 bindE (as_int (x_of self)) (\<lambda>sx.
                 bindE (as_curve (curve_of self)) (\<lambda>c.
                 bindE (as_int (y_of self)) (\<lambda>sy.
                 bindE (inv_mod (2 * sy) (curve_p c)) (\<lambda>i.
                 Inr ((3 * sx ^ 2 + curve_a c) * i)))))
               else
                 bindE (as_int (y_of self)) (\<lambda>sy.
                 bindE (as_int (y_of other)) (\<lambda>oy.
                 bindE (as_int (x_of self)) (\<lambda>sx.
                 bindE (as_int (x_of other)) (\<lambda>ox.
                 bindE (as_curve (curve_of self)) (\<lambda>c.
                 bindE (inv_mod (sx - ox) (curve_p c)) (\<lambda>i.
                 Inr ((sy - oy) * i)))))))) (\<lambda>m.
        bindE (as_int (x_of self)) (\<lambda>sx.
        bindE (as_int (x_of other)) (\<lambda>ox.
        bindE (as_curve (curve_of self)) (\<lambda>c.
        bindE (as_int (y_of self)) (\<lambda>sy.
        (let rx = (m ^ 2 - sx - ox) mod curve_p c;
             ry = (- (m * (rx - sx) + sy)) mod curve_p c
         in Inr (Point (Some c) (Some rx) (Some ry)))))))))"

text \<open>
  \<open>Point.__rmul__\<close>: the assertion admits only \<open>k \<ge> 0\<close>, so the loop runs on a natural
  number; \<open>k & 1\<close> is its parity and \<open>k >>= 1\<close> halves it. \<open>+=\<close> on points is \<open>__add__\<close>;
  the variable \<open>append\<close> is \<open>append_p\<close> here.
\<close>

function rmul_loop :: "nat \<Rightarrow> Point \<Rightarrow> Point \<Rightarrow> error + Point" where
  "rmul_loop k result append_p =
     (if k \<noteq> 0 then
        (case (if odd k then Point_add result append_p else Inr result) of
           Inl e \<Rightarrow> Inl e
         | Inr result' \<Rightarrow>
             (case Point_add append_p append_p of
                Inl e \<Rightarrow> Inl e
              | Inr append_p' \<Rightarrow> rmul_loop (k div 2) result' append_p'))
      else Inr result)"
  by pat_completeness auto
termination
  by (relation "measure (\<lambda>(k, result, append_p). k)") auto

declare rmul_loop.simps [simp del]

definition rmul :: "int \<Rightarrow> Point \<Rightarrow> error + Point" where
  "rmul k self = (if \<not> k \<ge> 0 then Inl AssertionError else rmul_loop (nat k) INF_point self)"

record Generator =
  gen_G :: Point
  gen_n :: int

subsection \<open>Point objects\<close>

text \<open>
  The result of \<open>__add__\<close> is one of its operands, the object \<open>INF\<close>, or a new object
  built by \<open>Point(self.curve, rx, ry)\<close>. To tell these apart, the point objects
  allocated so far are kept in a list and an object is referred to by its position;
  position 0 holds \<open>INF\<close>. Since \<open>Point\<close> defines no \<open>__eq__\<close>, \<open>==\<close> between two point
  objects holds exactly when they are the same object.
\<close>

type_synonym heap = "Point list"

definition INF_addr :: nat where
  "INF_addr = 0"

definition Point_eq :: "nat \<Rightarrow> nat \<Rightarrow> bool" where
  "Point_eq self other = (self = other)"

text \<open>
  \<open>Point.__add__\<close> on objects: the fields of \<open>self\<close> and \<open>other\<close> are read from the heap,
  and the last branch allocates the new point at the next free position.
\<close>

definition Point_add_obj :: "heap \<Rightarrow> nat \<Rightarrow> nat \<Rightarrow> error + (nat \<times> heap)" where
  "Point_add_obj h self other =
     (if Point_eq self INF_addr then Inr (other, h)
      else if Point_eq other INF_addr then Inr (self, h)
      else if x_of (h ! self) = x_of (h ! other) \<and> y_of (h ! self) \<noteq> y_of (h ! other)
        then Inr (INF_addr, h)
      else
        bindE (if x_of (h ! self) = x_of (h ! other) then
                 bindE (as_int (x_of (h ! self))) (\<lambda>sx.
                 bindE (as_curve (curve_of (h ! self))) (\<lambda>c.
                 bindE (as_int (y_of (h ! self))) (\<lambda>sy.
                 bindE (inv_mod (2 * sy) (curve_p c)) (\<lambda>i.
                 Inr ((3 * sx ^ 2 + curve_a c) * i)))))
               else
                 bindE (as_int (y_of (h ! self))) (\<lambda>sy.
                 bindE (as_int (y_of (h ! other))) (\<lambda>oy.
                 bindE (as_int (x_of (h ! self))) (\<lambda>sx.
                 bindE (as_int (x_of (h ! other))) (\<lambda>ox.
                 bindE (as_curve (curve_of (h ! self))) (\<lambda>c.
                 bindE (inv_mod (sx - ox) (curve_p c)) (\<lambda>i.
                 Inr ((sy - oy) * i)))))))) (\<lambda>m.
        bindE (as_int (x_of (h ! self))) (\<lambda>sx.
        bindE (as_int (x_of (h ! other))) (\<lambda>ox.
        bindE (as_curve (curve_of (h ! self))) (\<lambda>c.
        bindE (as_int (y_of (h ! self))) (\<lambda>sy.
        (let rx = (m ^ 2 - sx - ox) mod curve_p c;
             ry = (- (m * (rx - sx) + sy)) mod curve_p c
         in Inr (length h, h @ [Point (Some c) (Some rx) (Some ry)]))))))))"

section \<open>Signatures\<close>

record Signature =
  sig_r :: int
  sig_s :: int

text \<open>
  The local function \<open>dern\<close> of \<open>signature_encode\<close>: \<open>nb[0]\<close> raises IndexError on an
  empty byte string.
\<close>

definition dern :: "int \<Rightarrow> error + bytes" where
  "dern n =
     bindE (int_to_bytes n 32 Big) (\<lambda>nb0.
       (let nb = dropWhile (\<lambda>b. b = 0) nb0 in
        case nb of
          [] \<Rightarrow> Inl IndexError
        | b # _ \<Rightarrow> Inr ((if 0x80 \<le> b then [0] else []) @ nb)))"

definition signature_encode :: "Signature \<Rightarrow> error + bytes" where
  "signature_encode self =
     bindE (dern (sig_r self)) (\<lambda>rb.
     bindE (dern (sig_s self)) (\<lambda>sb.
     bindE (bytes_of_ints [0x02, int (length rb)]) (\<lambda>hr.
     bindE (bytes_of_ints [0x02, int (length sb)]) (\<lambda>hs.
       (let content = hr @ rb @ hs @ sb in
        bindE (bytes_of_ints [0x30, int (length content)]) (\<lambda>h.
        Inr (h @ content)))))))"

subsection \<open>True division by two\<close>

text \<open>
  \<open>sign\<close> tests \<open>s > n / 2\<close>, where \<open>/\<close> is Python's true division: its result is the
  double nearest to the exact quotient (ties to even), and OverflowError when that is
  not finite. Halving is exact in binary floating point, so \<open>n / 2\<close> is half of \<open>n\<close>
  rounded to 53 significant bits. A double is kept as mantissa and binary exponent.
  Python compares an \<open>int\<close> with a \<open>float\<close> by their exact values.
\<close>

record pyfloat =
  mantissa :: int
  exponent :: int

function bit_length :: "int \<Rightarrow> nat" where
  "bit_length n = (if n \<le> 0 then 0 else Suc (bit_length (n div 2)))"
  by pat_completeness auto
termination
  by (relation "measure nat") auto

declare bit_length.simps [simp del]

text \<open>Rounding a non-negative integer to 53 significant bits, ties to even.\<close>

definition round_53 :: "int \<Rightarrow> int" where
  "round_53 n =
     (let l = bit_length n in
      if l \<le> 53 then n
      else
        (let sh = l - 53;
             q = n div 2 ^ sh;
             rem = n mod 2 ^ sh;
             half = 2 ^ (sh - 1)
         in (if half < rem \<or> (rem = half \<and> odd q) then q + 1 else q) * 2 ^ sh))"

definition int_truediv_2 :: "int \<Rightarrow> error + pyfloat" where
  "int_truediv_2 n =
     (let m = round_53 \<bar>n\<bar> in
      if 2 ^ 1025 \<le> m then Inl OverflowError
      else Inr \<lparr> mantissa = sgn n * m, exponent = - 1 \<rparr>)"

definition int_gt_float :: "int \<Rightarrow> pyfloat \<Rightarrow> bool" where
  "int_gt_float i f =
     (if 0 \<le> exponent f then mantissa f * 2 ^ nat (exponent f) < i
      else mantissa f < i * 2 ^ nat (- exponent f))"

subsection \<open>\<open>sign\<close>\<close>

text \<open>The integer a byte string denotes in big-endian order (\<open>int.from_bytes(b, 'big')\<close>).\<close>

definition int_from_bytes_big :: "bytes \<Rightarrow> int" where
  "int_from_bytes_big bs = little_endian_value (rev bs)"

text \<open>
  \<open>sign\<close> has two inputs from outside this module: the digest function of \<open>hashlib\<close>,
  here the parameter \<open>sha256\<close>, and the value drawn by \<open>random.randrange(1, n)\<close>, here the
  parameter \<open>sk\<close> (\<open>randrange\<close> raises ValueError when the range is empty).
\<close>

definition sign ::
    "(bytes \<Rightarrow> bytes) \<Rightarrow> int \<Rightarrow> int \<Rightarrow> bytes \<Rightarrow> Generator \<Rightarrow> error + Signature" where
  "sign sha256 sk secret_key message generator =
     (let n = gen_n generator;
          z = int_from_bytes_big (sha256 (sha256 message))
      in if n \<le> 1 then Inl ValueError
         else
           bindE (rmul sk (gen_G generator)) (\<lambda>P.
           bindE (inv_mod sk n) (\<lambda>i.
           bindE (as_int (x_of P)) (\<lambda>r.
             (let s = (i * (z + secret_key * r)) mod n in
              bindE (int_truediv_2 n) (\<lambda>half.
              Inr \<lparr> sig_r = r, sig_s = (if int_gt_float s half then n - s else s) \<rparr>))))))"

section \<open>Notions used to state the properties\<close>

text \<open>A command that \<open>Script.encode\<close> recognises: an \<open>int\<close> or a \<open>bytes\<close> value.\<close>

definition is_int_or_bytes :: "cmd \<Rightarrow> bool" where
  "is_int_or_bytes c = (case c of CInt _ \<Rightarrow> True | CBytes _ \<Rightarrow> True | CStr _ \<Rightarrow> False)"

text \<open>
  A command that \<open>Script.encode\<close> can process without raising: an opcode that fits one
  byte, a push shorter than 75 bytes, or a value of another type (which is skipped).
\<close>

definition encodable :: "cmd \<Rightarrow> bool" where
  "encodable c =
     (case c of CInt i \<Rightarrow> 0 \<le> i \<and> i < 256 | CBytes d \<Rightarrow> length d < 75 | CStr _ \<Rightarrow> True)"

text \<open>A prime modulus, by trial division.\<close>

definition is_prime :: "int \<Rightarrow> bool" where
  "is_prime q = (2 \<le> q \<and> (\<forall>d \<in> {2..<q}. \<not> d dvd q))"

text \<open>
  A point of the group of a curve: the identity object, or a point that refers to the
  curve and whose coordinates are elements of the field (integers in \<open>[0, p)\<close>)
  satisfying \<open>y\<^sup>2 = x\<^sup>3 + a x + b (mod p)\<close>.
\<close>

definition on_curve :: "Curve \<Rightarrow> Point \<Rightarrow> bool" where
  "on_curve c P =
     (case P of
        INF_point \<Rightarrow> True
      | Point c' x y \<Rightarrow>
          c' = Some c \<and>
          (case (x, y) of
             (Some xv, Some yv) \<Rightarrow>
               0 \<le> xv \<and> xv < curve_p c \<and> 0 \<le> yv \<and> yv < curve_p c \<and>
               (yv ^ 2) mod curve_p c = (xv ^ 3 + curve_a c * xv + curve_b c) mod curve_p c
           | _ \<Rightarrow> False))"

subsection \<open>Concrete data\<close>

text \<open>A small curve, \<open>y\<^sup>2 = x\<^sup>3 + 7\<close> over the integers modulo 17, with two of its points.\<close>

definition curve17 :: Curve where
  "curve17 = \<lparr> curve_p = 17, curve_a = 0, curve_b = 7 \<rparr>"

definition point_1_5 :: Point where
  "point_1_5 = Point (Some curve17) (Some 1) (Some 5)"

definition point_2_7 :: Point where
  "point_2_7 = Point (Some curve17) (Some 2) (Some 7)"

text \<open>
  A heap with the object \<open>INF\<close> and these two points, and the point with the unreduced
  abscissa \<open>18 = 1 + 17\<close>, which satisfies the curve equation modulo 17.
\<close>

definition example_heap :: heap where
  "example_heap = [INF_point, point_1_5, point_2_7]"

definition point_18_12 :: Point where
  "point_18_12 = Point (Some curve17) (Some 18) (Some 12)"

text \<open>
  A heap in good order: \<open>INF\<close> is at position 0 and nowhere else.
\<close>

definition heap_ok :: "heap \<Rightarrow> bool" where
  "heap_ok h = (h \<noteq> [] \<and> h ! 0 = INF_point \<and> list_all (\<lambda>v. v \<noteq> INF_point) (tl h))"

text \<open>The curve secp256k1, its base point and the order of the base point.\<close>

definition secp256k1 :: Curve where
  "secp256k1 =
     \<lparr> curve_p = 0xFFFFFFFFFFFFFFFFFFFFFFFFFFFFFFFFFFFFFFFFFFFFFFFFFFFFFFFEFFFFFC2F,
       curve_a = 0,
       curve_b = 7 \<rparr>"

definition secp256k1_generator :: Generator where
  "secp256k1_generator =
     \<lparr> gen_G = Point (Some secp256k1)
                 (Some 0x79BE667EF9DCBBAC55A06295CE870B07029BFCDB2DCE28D959F2815B16F81798)
                 (Some 0x483ADA7726A3C4655DA4FBFC0E1108A8FD17B448A68554199C47D08FFB10D4B8),
       gen_n = 0xFFFFFFFFFFFFFFFFFFFFFFFFFFFFFFFEBAAEDCE6AF48A03BBFD25E8CD0364141 \<rparr>"

text \<open>
  SHA-256 on the two arguments that signing the empty message evaluates: the digest of
  the empty byte string, and the digest of that digest. (The value elsewhere is
  immaterial.)
\<close>

definition sha256_of_empty :: bytes where
  "sha256_of_empty =
     [227, 176, 196, 66, 152, 252, 28, 20, 154, 251, 244, 200, 153, 111, 185, 36,
      39, 174, 65, 228, 100, 155, 147, 76, 164, 149, 153, 27, 120, 82, 184, 85]"

definition sha256_twice_of_empty :: bytes where
  "sha256_twice_of_empty =
     [93, 246, 224, 226, 118, 19, 89, 211, 10, 130, 117, 5, 142, 41, 159, 204,
      3, 129, 83, 69, 69, 245, 92, 244, 62, 65, 152, 63, 93, 76, 148, 86]"

definition sha256_at_empty :: "bytes \<Rightarrow> bytes" where
  "sha256_at_empty m =
     (if m = [] then sha256_of_empty
      else if m = sha256_of_empty then sha256_twice_of_empty
      else replicate 32 0)"

text \<open>A transaction with two inputs and one output.\<close>

definition example_transaction :: Transaction where
  "example_transaction = \<lparr> version = 1, locktime = 0 \<rparr>"

definition example_inputs :: "transaction_input list" where
  "example_inputs =
     [create_transaction_input (replicate 32 0x11) 0 ''751e76e8199196d454941c45d1b3a323f1433bd6''
        (Some \<lparr> cmds = [CBytes [0x30, 0x01], CBytes [0x02]] \<rparr>) 0xffffffff,
      create_transaction_input (replicate 32 0x22) 1 ''06afd46bcdfd22ef94ac122aa11f241244a37ecc''
        (Some \<lparr> cmds = [CBytes [0x30, 0x02], CBytes [0x03]] \<rparr>) 0xffffffff]"

definition example_outputs :: "transaction_output list" where
  "example_outputs =
     [create_transaction_output 50000
        \<lparr> cmds = [CInt 118, CInt 169, CBytes (replicate 20 0x33), CInt 136, CInt 172] \<rparr>]"

section \<open>Basic facts about sequencing\<close>

lemma bindE_Inr_iff: "bindE m f = Inr v \<longleftrightarrow> (\<exists>a. m = Inr a \<and> f a = Inr v)"
  by (cases m) (simp_all add: bindE_def)

section \<open>Properties of the helper functions\<close>

subsection \<open>The extended Euclidean algorithm\<close>

text \<open>
  The loop keeps both remainders as integer combinations of \<open>n\<close> and \<open>p\<close>, and keeps
  their greatest common divisor. Once \<open>r\<close> is non-negative it stays so, because the
  remainder of floor division has the sign of the divisor; hence the last non-zero
  remainder is the (positive) greatest common divisor itself.
\<close>

lemma inv_loop_bezout:
  assumes "inv_loop old_r r old_s s old_t t = (g, x, y)"
    and "old_r = old_s * n + old_t * p"
    and "r = s * n + t * p"
    and "0 \<le> r" and "r = 0 \<longrightarrow> 0 < old_r"
  shows "g = x * n + y * p \<and> g = gcd old_r r"
  using assms
proof (induction old_r r old_s s old_t t rule: inv_loop.induct)
  case (1 old_r r old_s s old_t t)
  show ?case
  proof (cases "r = 0")
    case True
    with "1.prems" show ?thesis
      by (auto simp add: inv_loop.simps)
  next
    case False
    define q where "q = old_r div r"
    have rpos: "0 < r" using False "1.prems"(4) by simp
    have step: "inv_loop r (old_r - q * r) s (old_s - q * s) t (old_t - q * t) = (g, x, y)"
      using "1.prems"(1) False by (simp add: inv_loop.simps [of old_r r] q_def Let_def)
    have md: "old_r - q * r = old_r mod r"
      by (simp add: q_def minus_div_mult_eq_mod)
    have e1: "old_r - q * r = (old_s - q * s) * n + (old_t - q * t) * p"
      using "1.prems"(2,3) by (simp add: algebra_simps)
    have nonneg: "0 \<le> old_r - q * r"
      using rpos md by simp
    have "g = x * n + y * p \<and> g = gcd r (old_r - q * r)"
      using "1.IH" [OF False q_def step "1.prems"(3) e1 nonneg] rpos by simp
    moreover have "gcd r (old_r - q * r) = gcd old_r r"
      unfolding md using gcd_red_int [of old_r r] by simp
    ultimately show ?thesis by simp
  qed
qed

lemma inv_mod_correct:
  assumes "2 \<le> p" and "gcd n p = 1"
  shows "\<exists>m. inv_mod n p = Inr m \<and> 0 \<le> m \<and> m < p \<and> (n * m) mod p = 1"
proof -
  obtain g x y where res: "inv_loop n p 1 0 0 1 = (g, x, y)"
    by (cases "inv_loop n p 1 0 0 1") auto
  have "g = x * n + y * p \<and> g = gcd n p"
    using inv_loop_bezout [OF res, of n p] assms(1) by simp
  then have bez: "x * n + y * p = 1" using assms(2) by simp
  have "(n * (x mod p)) mod p = (x * n + y * p) mod p"
    by (simp add: mod_mult_right_eq mult.commute)
  then have "(n * (x mod p)) mod p = 1"
    using bez assms(1) by simp
  moreover have "inv_mod n p = Inr (x mod p)"
    using res assms(1) by (simp add: inv_mod_def)
  moreover have "0 \<le> x mod p" "x mod p < p" using assms(1) by simp_all
  ultimately show ?thesis by simp
qed

text \<open>The function always returns when the modulus is not zero.\<close>

lemma inv_mod_total: "p \<noteq> 0 \<Longrightarrow> \<exists>m. inv_mod n p = Inr m"
  by (cases "inv_loop n p 1 0 0 1") (simp add: inv_mod_def)

text \<open>
  C6. For all integers \<open>n\<close> and \<open>p\<close> with \<open>p \<ge> 2\<close> and \<open>gcd(n, p) = 1\<close>, negative \<open>n\<close>
  included, \<open>inv(n, p)\<close> returns some \<open>m\<close> with \<open>0 \<le> m < p\<close> and \<open>(n * m) mod p = 1\<close>.
\<close>

theorem inv_returns_modular_inverse:
  assumes "2 \<le> p" and "gcd n p = 1"
  shows "\<exists>m. inv_mod n p = Inr m \<and> 0 \<le> m \<and> m < p \<and> (n * m) mod p = 1"
  using assms by (rule inv_mod_correct)

theorem inv_returns_modular_inverse_witness:
  "(2::int) \<le> 7 \<and> gcd (- 3 :: int) 7 = 1 \<and>
   (\<exists>m. inv_mod (- 3) 7 = Inr m \<and> 0 \<le> m \<and> m < 7 \<and> (- 3 * m) mod 7 = 1)"
proof -
  have h1: "(2::int) \<le> 7" by simp
  have h2: "gcd (- 3 :: int) 7 = 1" by code_simp
  show ?thesis using h1 h2 inv_returns_modular_inverse [OF h1 h2] by simp
qed

section \<open>Properties of the byte encodings\<close>

lemma length_to_bytes_little: "length (to_bytes_little k i) = k"
  by (induction k arbitrary: i) simp_all

lemma uint_byte_of_mod: "uint (word_of_int (i mod 256) :: byte) = i mod 256"
proof -
  have "i mod 256 = take_bit 8 i" by (simp add: take_bit_eq_mod)
  then show ?thesis by (simp add: uint_word_of_int take_bit_eq_mod)
qed

lemma value_to_bytes_little: "little_endian_value (to_bytes_little k i) = i mod 256 ^ k"
proof (induction k arbitrary: i)
  case 0
  show ?case by simp
next
  case (Suc k)
  have "little_endian_value (to_bytes_little (Suc k) i) = i mod 256 + 256 * (i div 256 mod 256 ^ k)"
    by (simp add: uint_byte_of_mod Suc.IH)
  also have "\<dots> = i mod (256 * 256 ^ k)"
    using zmod_zmult2_eq [where a = i and b = 256 and c = "256 ^ k"] by simp
  finally show ?case by simp
qed

lemma encode_int_little:
  assumes "0 \<le> i" and "i < 256 ^ k"
  shows "\<exists>b. encode_int i k Little = Inr b \<and> length b = k \<and> little_endian_value b = i"
  using assms
  by (simp add: encode_int_def int_to_bytes_def length_to_bytes_little value_to_bytes_little)

text \<open>
  C9. For every non-negative integer \<open>i\<close>, \<open>encode_varint(i)\<close> is a single byte when
  \<open>i < 0xfd\<close>; otherwise it is the tag \<open>0xfd\<close>, \<open>0xfe\<close> or \<open>0xff\<close> followed by the 2-, 4- or
  8-byte little-endian value of \<open>i\<close>, with the smallest of these widths that fits; and
  it raises (ValueError, nothing being truncated) exactly when \<open>i \<ge> 2\<^sup>6\<^sup>4\<close>.
\<close>

theorem encode_varint_widths:
  assumes "0 \<le> i"
  shows "(i < 0xfd \<longrightarrow> (\<exists>b. encode_varint i = Inr [b] \<and> uint b = i))
       \<and> (0xfd \<le> i \<and> i < 2 ^ 16 \<longrightarrow>
            (\<exists>v. encode_varint i = Inr (0xfd # v) \<and> length v = 2 \<and> little_endian_value v = i))
       \<and> (2 ^ 16 \<le> i \<and> i < 2 ^ 32 \<longrightarrow>
            (\<exists>v. encode_varint i = Inr (0xfe # v) \<and> length v = 4 \<and> little_endian_value v = i))
       \<and> (2 ^ 32 \<le> i \<and> i < 2 ^ 64 \<longrightarrow>
            (\<exists>v. encode_varint i = Inr (0xff # v) \<and> length v = 8 \<and> little_endian_value v = i))
       \<and> (2 ^ 64 \<le> i \<longrightarrow> encode_varint i = Inl ValueError)
       \<and> ((\<exists>e. encode_varint i = Inl e) \<longleftrightarrow> 2 ^ 64 \<le> i)"
proof -
  have one: "\<exists>b. encode_varint i = Inr [b] \<and> uint b = i" if "i < 0xfd"
  proof -
    have "uint (word_of_int i :: byte) = i"
      using assms that by (simp add: uint_word_of_int take_bit_eq_mod)
    then show ?thesis
      using assms that by (simp add: encode_varint_def bytes_of_ints_def)
  qed
  have two: "\<exists>v. encode_varint i = Inr (0xfd # v) \<and> length v = 2 \<and> little_endian_value v = i"
    if h: "0xfd \<le> i" "i < 2 ^ 16"
  proof -
    obtain b where "encode_int i 2 Little = Inr b" "length b = 2" "little_endian_value b = i"
      using encode_int_little [of i 2] assms h by auto
    then show ?thesis using h by (simp add: encode_varint_def bindE_def)
  qed
  have four: "\<exists>v. encode_varint i = Inr (0xfe # v) \<and> length v = 4 \<and> little_endian_value v = i"
    if h: "2 ^ 16 \<le> i" "i < 2 ^ 32"
  proof -
    obtain b where "encode_int i 4 Little = Inr b" "length b = 4" "little_endian_value b = i"
      using encode_int_little [of i 4] assms h by auto
    then show ?thesis using h by (simp add: encode_varint_def bindE_def)
  qed
  have eight: "\<exists>v. encode_varint i = Inr (0xff # v) \<and> length v = 8 \<and> little_endian_value v = i"
    if h: "2 ^ 32 \<le> i" "i < 2 ^ 64"
  proof -
    obtain b where "encode_int i 8 Little = Inr b" "length b = 8" "little_endian_value b = i"
      using encode_int_little [of i 8] assms h by auto
    then show ?thesis using h by (simp add: encode_varint_def bindE_def)
  qed
  have big: "encode_varint i = Inl ValueError" if "2 ^ 64 \<le> i"
    using that by (simp add: encode_varint_def)
  have small: "\<exists>v. encode_varint i = Inr v" if lt: "i < 2 ^ 64"
  proof -
    consider "i < 0xfd" | "0xfd \<le> i \<and> i < 2 ^ 16" | "2 ^ 16 \<le> i \<and> i < 2 ^ 32" | "2 ^ 32 \<le> i \<and> i < 2 ^ 64"
      using lt by linarith
    then show ?thesis
    proof cases
      case 1 then show ?thesis using one by blast
    next
      case 2 then show ?thesis using two by blast
    next
      case 3 then show ?thesis using four by blast
    next
      case 4 then show ?thesis using eight by blast
    qed
  qed
  have iff: "(\<exists>e. encode_varint i = Inl e) \<longleftrightarrow> 2 ^ 64 \<le> i"
  proof
    assume "\<exists>e. encode_varint i = Inl e"
    then show "2 ^ 64 \<le> i" using small by (cases "i < 2 ^ 64") auto
  next
    assume "2 ^ 64 \<le> i"
    then show "\<exists>e. encode_varint i = Inl e" using big by blast
  qed
  show ?thesis using one two four eight big iff by blast
qed

theorem encode_varint_widths_witness:
  "(0::int) \<le> 252 \<and> (\<exists>b. encode_varint 252 = Inr [b] \<and> uint b = 252)
   \<and> (0::int) \<le> 253
   \<and> (\<exists>v. encode_varint 253 = Inr (0xfd # v) \<and> length v = 2 \<and> little_endian_value v = 253)
   \<and> (0::int) \<le> 65536
   \<and> (\<exists>v. encode_varint 65536 = Inr (0xfe # v) \<and> length v = 4 \<and> little_endian_value v = 65536)
   \<and> (0::int) \<le> 4294967296
   \<and> (\<exists>v. encode_varint 4294967296 = Inr (0xff # v) \<and> length v = 8
          \<and> little_endian_value v = 4294967296)
   \<and> (0::int) \<le> 18446744073709551616
   \<and> encode_varint 18446744073709551616 = Inl ValueError"
proof -
  have h: "(0::int) \<le> 252" "(0::int) \<le> 253" "(0::int) \<le> 65536" "(0::int) \<le> 4294967296"
    "(0::int) \<le> 18446744073709551616"
    by simp_all
  have "\<exists>b. encode_varint 252 = Inr [b] \<and> uint b = 252"
    using encode_varint_widths [OF h(1)] by simp
  moreover have "\<exists>v. encode_varint 253 = Inr (0xfd # v) \<and> length v = 2
      \<and> little_endian_value v = 253"
    using encode_varint_widths [OF h(2)] by simp
  moreover have "\<exists>v. encode_varint 65536 = Inr (0xfe # v) \<and> length v = 4
      \<and> little_endian_value v = 65536"
    using encode_varint_widths [OF h(3)] by simp
  moreover have "\<exists>v. encode_varint 4294967296 = Inr (0xff # v) \<and> length v = 8
      \<and> little_endian_value v = 4294967296"
    using encode_varint_widths [OF h(4)] by simp
  moreover have "encode_varint 18446744073709551616 = Inl ValueError"
    using encode_varint_widths [OF h(5)] by simp
  ultimately show ?thesis using h by blast
qed

subsection \<open>DER encoding of a signature\<close>

lemma value_zero_bytes: "\<forall>b \<in> set bs. b = 0 \<Longrightarrow> little_endian_value bs = 0"
  by (induction bs) simp_all

lemma to_bytes_little_nonzero:
  assumes "0 < n" and "n < 256 ^ k"
  shows "\<exists>b \<in> set (to_bytes_little k n). b \<noteq> 0"
proof (rule ccontr)
  assume "\<not> (\<exists>b \<in> set (to_bytes_little k n). b \<noteq> 0)"
  then have "little_endian_value (to_bytes_little k n) = 0"
    by (intro value_zero_bytes) simp
  then show False
    using assms by (simp add: value_to_bytes_little)
qed

lemma dern_returns:
  assumes "1 \<le> n" and "n < 2 ^ 256"
  shows "\<exists>nb0 nb. int_to_bytes n 32 Big = Inr nb0 \<and> dropWhile (\<lambda>b. b = 0) nb0 \<noteq> []
           \<and> dern n = Inr nb \<and> length nb \<le> 33"
proof -
  let ?full = "rev (to_bytes_little 32 n)"
  let ?nb = "dropWhile (\<lambda>b. b = 0) ?full"
  have fit: "n < 256 ^ 32" using assms(2) by simp
  have conv: "int_to_bytes n 32 Big = Inr ?full"
    using assms(1) fit by (simp add: int_to_bytes_def)
  have "\<exists>b \<in> set ?full. b \<noteq> 0"
    using to_bytes_little_nonzero [of n 32] assms(1) fit by simp
  then have ne: "?nb \<noteq> []"
    by (simp add: dropWhile_eq_Nil_conv)
  have "length ?nb \<le> length ?full" by (rule length_dropWhile_le)
  then have len: "length ?nb \<le> 32" by (simp add: length_to_bytes_little)
  obtain b rest where split: "?nb = b # rest" using ne by (cases ?nb) auto
  have "dern n = Inr ((if 0x80 \<le> b then [0] else []) @ ?nb)"
    unfolding dern_def conv bindE_def using split by (simp add: Let_def)
  then show ?thesis using conv ne len by auto
qed

lemma header_bytes: "k < 256 \<Longrightarrow> \<exists>h. bytes_of_ints [t, int k] = Inr h \<and> length h = 2" if "0 \<le> t" "t < 256"
  using that by (simp add: bytes_of_ints_def)

text \<open>
  C10. For every signature whose \<open>r\<close> and \<open>s\<close> lie in \<open>[1, 2\<^sup>2\<^sup>5\<^sup>6 - 1]\<close>,
  \<open>signature_encode\<close> returns without error: stripping the leading zero bytes of
  either 32-byte big-endian encoding leaves at least one byte, so the first byte read
  for the sign test exists.
\<close>

theorem signature_encode_returns:
  assumes "1 \<le> r" and "r < 2 ^ 256" and "1 \<le> s" and "s < 2 ^ 256"
  shows "(\<exists>nb. int_to_bytes r 32 Big = Inr nb \<and> dropWhile (\<lambda>b. b = 0) nb \<noteq> [])
       \<and> (\<exists>nb. int_to_bytes s 32 Big = Inr nb \<and> dropWhile (\<lambda>b. b = 0) nb \<noteq> [])
       \<and> (\<exists>frame. signature_encode \<lparr> sig_r = r, sig_s = s \<rparr> = Inr frame)"
proof -
  obtain rb where rb: "dern r = Inr rb" "length rb \<le> 33"
    and rne: "\<exists>nb. int_to_bytes r 32 Big = Inr nb \<and> dropWhile (\<lambda>b. b = 0) nb \<noteq> []"
    using dern_returns [OF assms(1,2)] by blast
  obtain sb where sb: "dern s = Inr sb" "length sb \<le> 33"
    and sne: "\<exists>nb. int_to_bytes s 32 Big = Inr nb \<and> dropWhile (\<lambda>b. b = 0) nb \<noteq> []"
    using dern_returns [OF assms(3,4)] by blast
  obtain hr where hr: "bytes_of_ints [0x02, int (length rb)] = Inr hr" "length hr = 2"
    using header_bytes [of 2 "length rb"] rb(2) by auto
  obtain hs where hs: "bytes_of_ints [0x02, int (length sb)] = Inr hs" "length hs = 2"
    using header_bytes [of 2 "length sb"] sb(2) by auto
  have "length (hr @ rb @ hs @ sb) < 256"
    using rb(2) sb(2) hr(2) hs(2) by simp
  then obtain h where h: "bytes_of_ints [0x30, int (length (hr @ rb @ hs @ sb))] = Inr h"
    using header_bytes [of "0x30" "length (hr @ rb @ hs @ sb)"] by auto
  have "signature_encode \<lparr> sig_r = r, sig_s = s \<rparr> = Inr (h @ hr @ rb @ hs @ sb)"
    using rb(1) sb(1) hr(1) hs(1) h by (simp add: signature_encode_def bindE_def Let_def)
  then show ?thesis using rne sne by blast
qed

theorem signature_encode_returns_witness:
  "(1::int) \<le> 1 \<and> (1::int) < 2 ^ 256 \<and> (1::int) \<le> 2 ^ 256 - 1 \<and> (2 ^ 256 - 1 :: int) < 2 ^ 256
   \<and> (\<exists>frame. signature_encode \<lparr> sig_r = 1, sig_s = 2 ^ 256 - 1 \<rparr> = Inr frame)"
proof -
  have h1: "(1::int) \<le> 1" and h2: "(1::int) < 2 ^ 256"
    and h3: "(1::int) \<le> 2 ^ 256 - 1" and h4: "(2 ^ 256 - 1 :: int) < 2 ^ 256"
    by simp_all
  show ?thesis
    using h1 h2 h3 h4 signature_encode_returns [OF h1 h2 h3 h4] by blast
qed

section \<open>Properties of scripts\<close>

lemma Script_encode_out_filter:
  "Script_encode_out (filter is_int_or_bytes cs) = Script_encode_out cs"
proof (induction cs)
  case Nil
  show ?case by simp
next
  case (Cons c cs)
  then show ?case by (cases c) (simp_all add: is_int_or_bytes_def)
qed

lemma Script_encode_filter:
  "Script_encode \<lparr> cmds = filter is_int_or_bytes cs \<rparr> = Script_encode \<lparr> cmds = cs \<rparr>"
  by (simp add: Script_encode_def Script_encode_out_filter)

lemma encode_int_one_byte:
  "0 \<le> i \<Longrightarrow> i < 256 \<Longrightarrow> \<exists>b. encode_int i 1 Little = Inr b \<and> length b = 1"
  by (simp add: encode_int_def int_to_bytes_def)

lemma Script_encode_out_returns:
  assumes "\<forall>c \<in> set cs. encodable c"
  shows "\<exists>ret. Script_encode_out cs = Inr ret \<and> length ret \<le> 75 * length cs"
  using assms
proof (induction cs)
  case Nil
  show ?case by simp
next
  case (Cons c cs)
  then obtain r where r: "Script_encode_out cs = Inr r" "length r \<le> 75 * length cs"
    by auto
  show ?case
  proof (cases c)
    case (CInt i)
    then have "0 \<le> i" "i < 256" using Cons.prems by (simp_all add: encodable_def)
    then obtain b where "encode_int i 1 Little = Inr b" "length b = 1"
      using encode_int_one_byte by blast
    then show ?thesis using r CInt by (simp add: bindE_def)
  next
    case (CBytes d)
    then have d: "length d < 75" using Cons.prems by (simp add: encodable_def)
    then obtain b where "encode_int (int (length d)) 1 Little = Inr b" "length b = 1"
      using encode_int_one_byte [of "int (length d)"] by auto
    then show ?thesis using r CBytes d by (simp add: bindE_def Let_def)
  next
    case (CStr h)
    then show ?thesis using r by simp
  qed
qed

lemma encode_varint_returns:
  assumes "0 \<le> i" and "i < 2 ^ 64"
  shows "\<exists>l. encode_varint i = Inr l"
  using assms
  by (simp add: encode_varint_def bytes_of_ints_def encode_int_def int_to_bytes_def bindE_def)

text \<open>
  C2, as amended. For every script whose integer commands fit one byte, whose byte-string
  commands are shorter than 75 bytes and which has fewer than \<open>2\<^sup>5\<^sup>7\<close> commands (so
  that its encoding is shorter than \<open>2\<^sup>6\<^sup>4\<close> bytes), \<open>Script.encode\<close> raises no error and
  returns exactly the encoding of the script without its elements that are neither
  \<open>int\<close> nor \<open>bytes\<close>: such an element leaves no trace in the serialized script.
\<close>

theorem Script_encode_omits_other_elements:
  assumes "list_all encodable cs" and "length cs < 2 ^ 57"
  shows "\<exists>enc. Script_encode \<lparr> cmds = cs \<rparr> = Inr enc
           \<and> Script_encode \<lparr> cmds = filter is_int_or_bytes cs \<rparr> = Inr enc"
proof -
  have "\<forall>c \<in> set cs. encodable c"
    using assms(1) by (simp add: list_all_iff)
  then obtain ret where ret: "Script_encode_out cs = Inr ret" "length ret \<le> 75 * length cs"
    using Script_encode_out_returns by blast
  have "75 * length cs < 75 * 2 ^ 57" using assms(2) by simp
  also have "\<dots> < (2 ^ 64 :: nat)" by simp
  finally have "length ret < 2 ^ 64" using ret(2) by simp
  then have "int (length ret) < 2 ^ 64"
    by (metis of_nat_less_iff of_nat_numeral of_nat_power)
  then obtain l where "encode_varint (int (length ret)) = Inr l"
    using encode_varint_returns [of "int (length ret)"] by auto
  then have "Script_encode \<lparr> cmds = cs \<rparr> = Inr (l @ ret)"
    using ret(1) by (simp add: Script_encode_def bindE_def)
  then show ?thesis by (simp add: Script_encode_filter)
qed

theorem Script_encode_omits_other_elements_witness:
  "list_all encodable [CInt 118, CInt 169, CStr ''751e'', CInt 126, CInt 172]
   \<and> length [CInt 118, CInt 169, CStr ''751e'', CInt 126, CInt 172] < 2 ^ 57
   \<and> (\<exists>enc. Script_encode \<lparr> cmds = [CInt 118, CInt 169, CStr ''751e'', CInt 126, CInt 172] \<rparr> = Inr enc
          \<and> Script_encode \<lparr> cmds = filter is_int_or_bytes
               [CInt 118, CInt 169, CStr ''751e'', CInt 126, CInt 172] \<rparr> = Inr enc)"
proof -
  have h1: "list_all encodable [CInt 118, CInt 169, CStr ''751e'', CInt 126, CInt 172]"
    by (simp add: encodable_def)
  have h2: "length [CInt 118, CInt 169, CStr ''751e'', CInt 126, CInt 172] < 2 ^ 57"
    by simp
  show ?thesis
    using h1 h2 Script_encode_omits_other_elements [OF h1 h2] by blast
qed

text \<open>
  C2, as stated, fails: a script that holds an element of another type and an integer
  that does not fit one byte makes \<open>Script.encode\<close> raise.
\<close>

theorem Script_encode_other_element_counterexample:
  "\<not> is_int_or_bytes (CStr ''751e'')
   \<and> Script_encode \<lparr> cmds = [CInt 256, CStr ''751e''] \<rparr> = Inl OverflowError"
  by (simp add: Script_encode_def encode_int_def int_to_bytes_def bindE_def is_int_or_bytes_def)

text \<open>
  C1. The script that \<open>create_transaction_input\<close> stores as the previous output's locking
  script has the opcode 126 (\<open>0x7e\<close>) in fourth place, where the pay-to-pubkey-hash
  template has \<open>OP_EQUALVERIFY\<close>, 136 (\<open>0x88\<close>); its third element is the hash as a
  string, which the encoding drops.
\<close>

theorem create_transaction_input_script:
  "cmds (prev_transaction_script_pubkey
      (create_transaction_input (replicate 32 0x11) 0 ''751e76e8199196d454941c45d1b3a323f1433bd6''
         None 0xffffffff))
    = [CInt 118, CInt 169, CStr ''751e76e8199196d454941c45d1b3a323f1433bd6'', CInt 126, CInt 172]
   \<and> CInt 126 \<noteq> CInt 136
   \<and> Script_encode (prev_transaction_script_pubkey
      (create_transaction_input (replicate 32 0x11) 0 ''751e76e8199196d454941c45d1b3a323f1433bd6''
         None 0xffffffff))
    = Inr [0x04, 0x76, 0xa9, 0x7e, 0xac]"
  by (simp add: create_transaction_input_def Script_encode_def encode_int_def int_to_bytes_def
      bindE_def encode_varint_def bytes_of_ints_def)

section \<open>Properties of the transaction encoding\<close>

lemma mapE_length: "mapE f xs = Inr ys \<Longrightarrow> length ys = length xs"
  by (induction xs arbitrary: ys) (auto simp: bindE_Inr_iff)

lemma mapE_nth: "mapE f xs = Inr ys \<Longrightarrow> i < length xs \<Longrightarrow> f (xs ! i) = Inr (ys ! i)"
proof (induction xs arbitrary: ys i)
  case Nil
  then show ?case by simp
next
  case (Cons x xs)
  then obtain y rest where parts: "f x = Inr y" "mapE f xs = Inr rest" "ys = y # rest"
    by (auto simp: bindE_Inr_iff)
  show ?case
  proof (cases i)
    case 0
    then show ?thesis using parts by simp
  next
    case (Suc j)
    then show ?thesis using parts Cons.IH [of rest j] Cons.prems(2) by simp
  qed
qed

lemma encode_transaction_input_Inr:
  assumes "encode_transaction_input inp ov = Inr seg"
  shows "\<exists>idx script seq.
           seg = rev (prev_transaction_id inp) @ idx @ script @ seq
         \<and> encode_int (prev_transaction_idx inp) 4 Little = Inr idx
         \<and> encode_int (sequence inp) 4 Little = Inr seq
         \<and> (case ov of
              NoOverride \<Rightarrow> (\<exists>sc. script_sig inp = Some sc \<and> Script_encode sc = Inr script)
            | Override flag \<Rightarrow>
                (if flag then Script_encode (prev_transaction_script_pubkey inp) = Inr script
                 else Script_encode \<lparr> cmds = [] \<rparr> = Inr script)
            | OtherOverride \<Rightarrow> False)"
  using assms
  by (auto simp: encode_transaction_input_def bindE_Inr_iff split: override.splits option.splits bool.splits)

lemma Transaction_encode_Inr:
  assumes "Transaction_encode tx ins outs sig_index = Inr bs"
  shows "\<exists>ver n_in segs n_out outs_b lt.
           bs = ver @ n_in @ concat segs @ n_out @ concat outs_b @ lt
                  @ (if sig_index = - 1 then [] else [1, 0, 0, 0])
         \<and> encode_int (version tx) 4 Little = Inr ver
         \<and> encode_varint (int (length ins)) = Inr n_in
         \<and> (if sig_index = - 1
              then mapE (\<lambda>inp. encode_transaction_input inp NoOverride) ins
              else mapE (\<lambda>(i, inp). encode_transaction_input inp (Override (sig_index = int i)))
                     (enumerate 0 ins)) = Inr segs
         \<and> encode_varint (int (length outs)) = Inr n_out
         \<and> mapE encode_transaction_output outs = Inr outs_b
         \<and> encode_int (locktime tx) 4 Little = Inr lt"
proof -
  have one: "encode_int 1 4 Little = Inr [1, 0, 0, 0]"
    by (simp add: encode_int_def int_to_bytes_def eval_nat_numeral)
  show ?thesis
    using assms unfolding Transaction_encode_def bindE_Inr_iff
    by (cases "sig_index = - 1") (auto simp: one)
qed

text \<open>
  C4. Whenever \<open>Transaction.encode\<close> returns, the bytes after the version and the input
  count are the inputs in order, each as reversed previous id, index, a script and
  sequence number. With \<open>sig_index = j \<ge> 0\<close> the script of input \<open>j\<close> is the encoding of
  the locking script stored for its previous output, and that of every other input is
  the encoding of the empty script; with \<open>sig_index = -1\<close> the script of every input is
  the encoding of its own unlocking script.
\<close>

theorem Transaction_encode_input_scripts:
  assumes "Transaction_encode tx ins outs sig_index = Inr bs"
  shows "\<exists>ver n_in segs rest.
           bs = ver @ n_in @ concat segs @ rest
         \<and> encode_int (version tx) 4 Little = Inr ver
         \<and> encode_varint (int (length ins)) = Inr n_in
         \<and> length segs = length ins
         \<and> (\<forall>i < length ins. \<exists>idx script seq.
               segs ! i = rev (prev_transaction_id (ins ! i)) @ idx @ script @ seq
             \<and> encode_int (prev_transaction_idx (ins ! i)) 4 Little = Inr idx
             \<and> encode_int (sequence (ins ! i)) 4 Little = Inr seq
             \<and> (0 \<le> sig_index \<longrightarrow>
                  (if int i = sig_index
                   then Script_encode (prev_transaction_script_pubkey (ins ! i)) = Inr script
                   else Script_encode \<lparr> cmds = [] \<rparr> = Inr script))
             \<and> (sig_index = - 1 \<longrightarrow>
                  (\<exists>sc. script_sig (ins ! i) = Some sc \<and> Script_encode sc = Inr script)))"
proof -
  obtain ver n_in segs n_out outs_b lt where
    bs: "bs = ver @ n_in @ concat segs @ n_out @ concat outs_b @ lt
              @ (if sig_index = - 1 then [] else [1, 0, 0, 0])"
    and ver: "encode_int (version tx) 4 Little = Inr ver"
    and n_in: "encode_varint (int (length ins)) = Inr n_in"
    and segs: "(if sig_index = - 1
              then mapE (\<lambda>inp. encode_transaction_input inp NoOverride) ins
              else mapE (\<lambda>(i, inp). encode_transaction_input inp (Override (sig_index = int i)))
                     (enumerate 0 ins)) = Inr segs"
    using Transaction_encode_Inr [OF assms] by blast
  have len: "length segs = length ins"
    using segs mapE_length [of _ ins segs] mapE_length [of _ "enumerate 0 ins" segs]
    by (auto split: if_splits)
  have each: "\<exists>idx script seq.
               segs ! i = rev (prev_transaction_id (ins ! i)) @ idx @ script @ seq
             \<and> encode_int (prev_transaction_idx (ins ! i)) 4 Little = Inr idx
             \<and> encode_int (sequence (ins ! i)) 4 Little = Inr seq
             \<and> (0 \<le> sig_index \<longrightarrow>
                  (if int i = sig_index
                   then Script_encode (prev_transaction_script_pubkey (ins ! i)) = Inr script
                   else Script_encode \<lparr> cmds = [] \<rparr> = Inr script))
             \<and> (sig_index = - 1 \<longrightarrow>
                  (\<exists>sc. script_sig (ins ! i) = Some sc \<and> Script_encode sc = Inr script))"
    if i: "i < length ins" for i
  proof (cases "sig_index = - 1")
    case True
    then have "mapE (\<lambda>inp. encode_transaction_input inp NoOverride) ins = Inr segs"
      using segs by simp
    then have "encode_transaction_input (ins ! i) NoOverride = Inr (segs ! i)"
      using mapE_nth i by fastforce
    from encode_transaction_input_Inr [OF this] show ?thesis
      using True by auto
  next
    case False
    then have "mapE (\<lambda>(k, inp). encode_transaction_input inp (Override (sig_index = int k)))
                 (enumerate 0 ins) = Inr segs"
      using segs by simp
    then have "(\<lambda>(k, inp). encode_transaction_input inp (Override (sig_index = int k)))
                 (enumerate 0 ins ! i) = Inr (segs ! i)"
      using mapE_nth [of _ "enumerate 0 ins" segs i] i by simp
    then have "encode_transaction_input (ins ! i) (Override (sig_index = int i)) = Inr (segs ! i)"
      using i by (simp add: nth_enumerate_eq)
    from encode_transaction_input_Inr [OF this] obtain idx script seq where
      parts: "segs ! i = rev (prev_transaction_id (ins ! i)) @ idx @ script @ seq"
        "encode_int (prev_transaction_idx (ins ! i)) 4 Little = Inr idx"
        "encode_int (sequence (ins ! i)) 4 Little = Inr seq"
      and chosen: "if sig_index = int i
           then Script_encode (prev_transaction_script_pubkey (ins ! i)) = Inr script
           else Script_encode \<lparr> cmds = [] \<rparr> = Inr script"
      by auto
    have "if int i = sig_index
           then Script_encode (prev_transaction_script_pubkey (ins ! i)) = Inr script
           else Script_encode \<lparr> cmds = [] \<rparr> = Inr script"
      using chosen by (simp add: eq_commute [of "int i" sig_index])
    then show ?thesis
      using parts False by blast
  qed
  show ?thesis
    using bs ver n_in len each by blast
qed

theorem Transaction_encode_input_scripts_witness:
  "(\<exists>bs. Transaction_encode example_transaction example_inputs example_outputs 1 = Inr bs
      \<and> (\<exists>ver n_in segs rest.
           bs = ver @ n_in @ concat segs @ rest
         \<and> length segs = length example_inputs
         \<and> (\<exists>idx script seq.
               segs ! 1 = rev (prev_transaction_id (example_inputs ! 1)) @ idx @ script @ seq
             \<and> Script_encode (prev_transaction_script_pubkey (example_inputs ! 1)) = Inr script)
         \<and> (\<exists>idx script seq.
               segs ! 0 = rev (prev_transaction_id (example_inputs ! 0)) @ idx @ script @ seq
             \<and> Script_encode \<lparr> cmds = [] \<rparr> = Inr script)))
   \<and> (\<exists>bs. Transaction_encode example_transaction example_inputs example_outputs (- 1) = Inr bs
      \<and> (\<exists>ver n_in segs rest.
           bs = ver @ n_in @ concat segs @ rest
         \<and> length segs = length example_inputs
         \<and> (\<exists>idx script seq sc.
               segs ! 1 = rev (prev_transaction_id (example_inputs ! 1)) @ idx @ script @ seq
             \<and> script_sig (example_inputs ! 1) = Some sc \<and> Script_encode sc = Inr script)))"
proof -
  have len0: "(0::nat) < length example_inputs" and len1: "(1::nat) < length example_inputs"
    by (simp_all add: example_inputs_def)
  have "case Transaction_encode example_transaction example_inputs example_outputs 1
          of Inl e \<Rightarrow> False | Inr v \<Rightarrow> True"
    by code_simp
  then obtain bs where bs:
      "Transaction_encode example_transaction example_inputs example_outputs 1 = Inr bs"
    by (cases "Transaction_encode example_transaction example_inputs example_outputs 1") auto
  have "case Transaction_encode example_transaction example_inputs example_outputs (- 1)
          of Inl e \<Rightarrow> False | Inr v \<Rightarrow> True"
    by code_simp
  then obtain fs where fs:
      "Transaction_encode example_transaction example_inputs example_outputs (- 1) = Inr fs"
    by (cases "Transaction_encode example_transaction example_inputs example_outputs (- 1)") auto
  have signing: "\<exists>ver n_in segs rest.
           bs = ver @ n_in @ concat segs @ rest
         \<and> length segs = length example_inputs
         \<and> (\<exists>idx script seq.
               segs ! 1 = rev (prev_transaction_id (example_inputs ! 1)) @ idx @ script @ seq
             \<and> Script_encode (prev_transaction_script_pubkey (example_inputs ! 1)) = Inr script)
         \<and> (\<exists>idx script seq.
               segs ! 0 = rev (prev_transaction_id (example_inputs ! 0)) @ idx @ script @ seq
             \<and> Script_encode \<lparr> cmds = [] \<rparr> = Inr script)"
  proof -
    from Transaction_encode_input_scripts [OF bs] obtain ver n_in segs rest where
      dec: "bs = ver @ n_in @ concat segs @ rest" "length segs = length example_inputs"
      and each: "\<forall>i < length example_inputs. \<exists>idx script seq.
               segs ! i = rev (prev_transaction_id (example_inputs ! i)) @ idx @ script @ seq
             \<and> encode_int (prev_transaction_idx (example_inputs ! i)) 4 Little = Inr idx
             \<and> encode_int (sequence (example_inputs ! i)) 4 Little = Inr seq
             \<and> (0 \<le> (1::int) \<longrightarrow>
                  (if int i = 1
                   then Script_encode (prev_transaction_script_pubkey (example_inputs ! i))
                          = Inr script
                   else Script_encode \<lparr> cmds = [] \<rparr> = Inr script))
             \<and> ((1::int) = - 1 \<longrightarrow>
                  (\<exists>sc. script_sig (example_inputs ! i) = Some sc \<and> Script_encode sc = Inr script))"
      by blast
    from each [rule_format, OF len1] obtain idx1 script1 seq1 where
      a1: "segs ! 1 = rev (prev_transaction_id (example_inputs ! 1)) @ idx1 @ script1 @ seq1"
      and b1: "0 \<le> (1::int) \<longrightarrow>
                  (if int 1 = 1
                   then Script_encode (prev_transaction_script_pubkey (example_inputs ! 1))
                          = Inr script1
                   else Script_encode \<lparr> cmds = [] \<rparr> = Inr script1)"
      by blast
    from each [rule_format, OF len0] obtain idx0 script0 seq0 where
      a0: "segs ! 0 = rev (prev_transaction_id (example_inputs ! 0)) @ idx0 @ script0 @ seq0"
      and b0: "0 \<le> (1::int) \<longrightarrow>
                  (if int 0 = 1
                   then Script_encode (prev_transaction_script_pubkey (example_inputs ! 0))
                          = Inr script0
                   else Script_encode \<lparr> cmds = [] \<rparr> = Inr script0)"
      by blast
    have c1: "Script_encode (prev_transaction_script_pubkey (example_inputs ! 1)) = Inr script1"
      using b1 by simp
    have c0: "Script_encode \<lparr> cmds = [] \<rparr> = Inr script0"
      using b0 by simp
    show ?thesis
      using dec a1 c1 a0 c0 by blast
  qed
  have final: "\<exists>ver n_in segs rest.
           fs = ver @ n_in @ concat segs @ rest
         \<and> length segs = length example_inputs
         \<and> (\<exists>idx script seq sc.
               segs ! 1 = rev (prev_transaction_id (example_inputs ! 1)) @ idx @ script @ seq
             \<and> script_sig (example_inputs ! 1) = Some sc \<and> Script_encode sc = Inr script)"
  proof -
    from Transaction_encode_input_scripts [OF fs] obtain ver n_in segs rest where
      dec: "fs = ver @ n_in @ concat segs @ rest" "length segs = length example_inputs"
      and each: "\<forall>i < length example_inputs. \<exists>idx script seq.
               segs ! i = rev (prev_transaction_id (example_inputs ! i)) @ idx @ script @ seq
             \<and> encode_int (prev_transaction_idx (example_inputs ! i)) 4 Little = Inr idx
             \<and> encode_int (sequence (example_inputs ! i)) 4 Little = Inr seq
             \<and> (0 \<le> (- 1::int) \<longrightarrow>
                  (if int i = - 1
                   then Script_encode (prev_transaction_script_pubkey (example_inputs ! i))
                          = Inr script
                   else Script_encode \<lparr> cmds = [] \<rparr> = Inr script))
             \<and> ((- 1::int) = - 1 \<longrightarrow>
                  (\<exists>sc. script_sig (example_inputs ! i) = Some sc \<and> Script_encode sc = Inr script))"
      by blast
    from each [rule_format, OF len1] obtain idx1 script1 seq1 where
      a1: "segs ! 1 = rev (prev_transaction_id (example_inputs ! 1)) @ idx1 @ script1 @ seq1"
      and b1: "(- 1::int) = - 1 \<longrightarrow>
                  (\<exists>sc. script_sig (example_inputs ! 1) = Some sc \<and> Script_encode sc = Inr script1)"
      by blast
    from b1 obtain sc where
      c1: "script_sig (example_inputs ! 1) = Some sc" "Script_encode sc = Inr script1"
      by blast
    show ?thesis
      using dec a1 c1 by blast
  qed
  show ?thesis using bs fs signing final by blast
qed




section \<open>Properties of point addition\<close>



subsection \<open>Commutativity\<close>

text \<open>
  Two distinct field elements differ by a unit modulo a prime, so both slopes of the
  chord are defined; they are congruent, and so are the coordinates computed from them.
\<close>

lemma prime_coprime:
  assumes "is_prime q" and "d \<noteq> 0" and "\<bar>d\<bar> < q"
  shows "gcd d q = 1"
proof -
  let ?g = "gcd d q"
  have q2: "2 \<le> q" and nodiv: "\<forall>k \<in> {2..<q}. \<not> k dvd q"
    using assms(1) by (simp_all add: is_prime_def)
  have "?g dvd \<bar>d\<bar>" by simp
  then have "?g \<le> \<bar>d\<bar>" using assms(2) by (intro zdvd_imp_le) simp_all
  then have lt: "?g < q" using assms(3) by simp
  have pos: "0 < ?g" using assms(2) by (simp add: gcd_pos_int)
  have "\<not> 2 \<le> ?g"
  proof
    assume "2 \<le> ?g"
    then have "?g \<in> {2..<q}" using lt by simp
    then have "\<not> ?g dvd q" using nodiv by blast
    then show False by simp
  qed
  then show ?thesis using pos by linarith
qed

lemma inverse_dvd:
  fixes q n m :: int
  assumes "2 \<le> q" and "(n * m) mod q = 1"
  shows "q dvd (n * m - 1)"
proof -
  have "(n * m) mod q = 1 mod q" using assms by simp
  then show ?thesis by (simp add: mod_eq_dvd_iff)
qed

lemma chord_commutes:
  fixes q x1 y1 x2 y2 i j :: int
  assumes q2: "2 \<le> q"
    and i: "q dvd ((x1 - x2) * i - 1)"
    and j: "q dvd ((x2 - x1) * j - 1)"
  defines "m \<equiv> (y1 - y2) * i" and "m' \<equiv> (y2 - y1) * j"
  defines "rx \<equiv> (m ^ 2 - x1 - x2) mod q" and "rx' \<equiv> (m' ^ 2 - x2 - x1) mod q"
  shows "rx = rx'"
    and "(- (m * (rx - x1) + y1)) mod q = (- (m' * (rx' - x2) + y2)) mod q"
proof -
  have "i + j = - (j * ((x1 - x2) * i - 1) + i * ((x2 - x1) * j - 1))"
    by (simp add: algebra_simps)
  then have ij: "q dvd (i + j)"
    using i j by (metis dvd_add dvd_minus_iff dvd_mult)
  have "m - m' = (y1 - y2) * (i + j)"
    by (simp add: m_def m'_def algebra_simps)
  then have mm: "q dvd (m - m')" using ij by simp
  have "(m ^ 2 - x1 - x2) - (m' ^ 2 - x2 - x1) = (m - m') * (m + m')"
    by (simp add: power2_eq_square algebra_simps)
  then have "q dvd ((m ^ 2 - x1 - x2) - (m' ^ 2 - x2 - x1))"
    using mm by simp
  then show rx: "rx = rx'"
    unfolding rx_def rx'_def by (simp add: mod_eq_dvd_iff)
  have "(- (m * (rx - x1) + y1)) - (- (m' * (rx - x2) + y2))
      = (m - m') * (x2 - rx) + (y1 - y2) * ((x1 - x2) * i - 1)"
    by (simp add: m_def m'_def algebra_simps)
  then have "q dvd ((- (m * (rx - x1) + y1)) - (- (m' * (rx - x2) + y2)))"
    using mm i by simp
  then show "(- (m * (rx - x1) + y1)) mod q = (- (m' * (rx' - x2) + y2)) mod q"
    unfolding rx [symmetric] by (simp add: mod_eq_dvd_iff)
qed

lemma on_curve_PointE:
  assumes "on_curve c (Point cp xp yp)"
  obtains x y where "cp = Some c" "xp = Some x" "yp = Some y"
    "0 \<le> x" "x < curve_p c" "0 \<le> y" "y < curve_p c"
  using assms by (auto simp: on_curve_def split: option.splits)

lemma Point_add_affine:
  assumes "is_prime (curve_p c)"
    and "0 \<le> x1" "x1 < curve_p c" "0 \<le> x2" "x2 < curve_p c"
  shows "\<exists>R. Point_add (Point (Some c) (Some x1) (Some y1)) (Point (Some c) (Some x2) (Some y2)) = Inr R
           \<and> Point_add (Point (Some c) (Some x2) (Some y2)) (Point (Some c) (Some x1) (Some y1)) = Inr R"
proof -
  let ?q = "curve_p c"
  have q2: "2 \<le> ?q" using assms(1) by (simp add: is_prime_def)
  show ?thesis
  proof (cases "x1 = x2")
    case True
    show ?thesis
    proof (cases "y1 = y2")
      case same: True
      obtain i where "inv_mod (2 * y1) ?q = Inr i"
        using inv_mod_total [of ?q "2 * y1"] q2 by auto
      then show ?thesis
        using True same by (simp add: Point_add_def bindE_def as_int_def as_curve_def Let_def)
    next
      case False
      then show ?thesis
        using True by (simp add: Point_add_def)
    qed
  next
    case False
    have d1: "x1 - x2 \<noteq> 0" "\<bar>x1 - x2\<bar> < ?q" and d2: "x2 - x1 \<noteq> 0" "\<bar>x2 - x1\<bar> < ?q"
      using False assms(2-5) by simp_all
    obtain i where i: "inv_mod (x1 - x2) ?q = Inr i" "((x1 - x2) * i) mod ?q = 1"
      using inv_mod_correct [OF q2 prime_coprime [OF assms(1) d1]] by blast
    obtain j where j: "inv_mod (x2 - x1) ?q = Inr j" "((x2 - x1) * j) mod ?q = 1"
      using inv_mod_correct [OF q2 prime_coprime [OF assms(1) d2]] by blast
    have di: "?q dvd ((x1 - x2) * i - 1)" using inverse_dvd [OF q2 i(2)] .
    have dj: "?q dvd ((x2 - x1) * j - 1)" using inverse_dvd [OF q2 j(2)] .
    note comm = chord_commutes [OF q2 di dj, of y1 y2]
    have ne: "x2 \<noteq> x1" using False by simp
    show ?thesis
      using False ne i(1) j(1) comm
      by (simp add: Point_add_def bindE_def as_int_def as_curve_def Let_def)
  qed
qed

text \<open>
  C8, as amended. For any two points \<open>P\<close> and \<open>Q\<close> of the group of a curve over a prime
  field (each the identity, or with coordinates in \<open>[0, p)\<close> that satisfy the curve
  equation), \<open>P + Q\<close> and \<open>Q + P\<close> both return, and their results have the same curve
  and the same coordinates, or are the identity both times. This covers the identity
  operands, the inverse pair, doubling and the chord.
\<close>

theorem Point_add_commutative:
  assumes "is_prime (curve_p c)" and "on_curve c P" and "on_curve c Q"
  shows "\<exists>R. Point_add P Q = Inr R \<and> Point_add Q P = Inr R"
proof (cases P)
  case INF_point
  then show ?thesis by (simp add: Point_add_def)
next
  case P: (Point cp xp yp)
  show ?thesis
  proof (cases Q)
    case INF_point
    then show ?thesis by (simp add: Point_add_def)
  next
    case Q: (Point cq xq yq)
    from assms(2) P obtain x1 y1 where
      p: "cp = Some c" "xp = Some x1" "yp = Some y1" "0 \<le> x1" "x1 < curve_p c"
      by (auto elim: on_curve_PointE)
    from assms(3) Q obtain x2 y2 where
      q: "cq = Some c" "xq = Some x2" "yq = Some y2" "0 \<le> x2" "x2 < curve_p c"
      by (auto elim: on_curve_PointE)
    show ?thesis
      unfolding P Q p(1-3) q(1-3)
      by (rule Point_add_affine [OF assms(1) p(4,5) q(4,5)])
  qed
qed

theorem Point_add_commutative_witness:
  "is_prime (curve_p curve17) \<and> on_curve curve17 point_1_5 \<and> on_curve curve17 point_2_7
   \<and> (\<exists>R. Point_add point_1_5 point_2_7 = Inr R \<and> Point_add point_2_7 point_1_5 = Inr R)"
proof -
  have "is_prime 17" by code_simp
  then have h1: "is_prime (curve_p curve17)"
    by (simp add: curve17_def)
  have h2: "on_curve curve17 point_1_5" and h3: "on_curve curve17 point_2_7"
    by (simp_all add: on_curve_def curve17_def point_1_5_def point_2_7_def)
  show ?thesis
    using h1 h2 h3 Point_add_commutative [OF h1 h2 h3] by blast
qed

subsection \<open>Identity of the results\<close>

text \<open>
  The fields of the object that \<open>__add__\<close> returns are the point that \<open>Point_add\<close>
  computes from the fields of the operands.
\<close>

lemma heap_ok_not_INF:
  assumes "heap_ok h" and "a < length h" and "a \<noteq> 0"
  shows "h ! a \<noteq> INF_point"
proof -
  have "h \<noteq> []" and all: "\<forall>v \<in> set (tl h). v \<noteq> INF_point"
    using assms(1) by (simp_all add: heap_ok_def list_all_iff)
  have "a - 1 < length (tl h)" using assms(2,3) by simp
  then have "tl h ! (a - 1) \<in> set (tl h)" by (rule nth_mem)
  moreover have "tl h ! (a - 1) = h ! a"
    using assms(3) \<open>h \<noteq> []\<close> by (cases h; cases a) simp_all
  ultimately show ?thesis using all by auto
qed

lemma Point_add_obj_fields:
  assumes "heap_ok h" and "self < length h" and "other < length h"
  shows "(case Point_add_obj h self other of
            Inl e \<Rightarrow> Inl e
          | Inr (r, h') \<Rightarrow> Inr (h' ! r)) = Point_add (h ! self) (h ! other)"
proof -
  have zero: "h ! 0 = INF_point" using assms(1) by (simp add: heap_ok_def)
  show ?thesis
  proof (cases "self = 0")
    case True
    then show ?thesis
      using zero by (simp add: Point_add_obj_def Point_add_def Point_eq_def INF_addr_def)
  next
    case False
    note s = this
    have ns: "h ! self \<noteq> INF_point"
      using heap_ok_not_INF [OF assms(1,2) s] .
    show ?thesis
    proof (cases "other = 0")
      case True
      then show ?thesis
        using s ns zero by (simp add: Point_add_obj_def Point_add_def Point_eq_def INF_addr_def)
    next
      case False
      have no: "h ! other \<noteq> INF_point"
        using heap_ok_not_INF [OF assms(1,3) False] .
      show ?thesis
        using s False ns no zero
        by (simp add: Point_add_obj_def Point_add_def Point_eq_def INF_addr_def bindE_def Let_def
            split: sum.splits)
    qed
  qed
qed

text \<open>
  C8, as stated, fails: \<open>Point\<close> defines no \<open>__eq__\<close>, and the chord and doubling branches
  return a new object at every call. For the points \<open>(1, 5)\<close> and \<open>(2, 7)\<close> of the curve
  modulo 17, \<open>P + Q\<close> is the object at position 3 and \<open>Q + P\<close>, computed next, the object
  at position 4: both are \<open>(1, 12)\<close>, but \<open>P + Q == Q + P\<close> is false. Likewise two
  evaluations of \<open>P + P\<close> give two objects.
\<close>

theorem Point_add_object_counterexample:
  "is_prime (curve_p curve17)
   \<and> on_curve curve17 (example_heap ! 1) \<and> on_curve curve17 (example_heap ! 2)
   \<and> Point_add_obj example_heap 1 2
       = Inr (3, example_heap @ [Point (Some curve17) (Some 1) (Some 12)])
   \<and> Point_add_obj (example_heap @ [Point (Some curve17) (Some 1) (Some 12)]) 2 1
       = Inr (4, example_heap @ [Point (Some curve17) (Some 1) (Some 12)]
                   @ [Point (Some curve17) (Some 1) (Some 12)])
   \<and> \<not> Point_eq 3 4
   \<and> Point_add_obj example_heap 1 1
       = Inr (3, example_heap @ [Point (Some curve17) (Some 2) (Some 10)])
   \<and> Point_add_obj (example_heap @ [Point (Some curve17) (Some 2) (Some 10)]) 1 1
       = Inr (4, example_heap @ [Point (Some curve17) (Some 2) (Some 10)]
                   @ [Point (Some curve17) (Some 2) (Some 10)])"
  by code_simp

text \<open>
  The coordinates of a point of the group are field elements. For an abscissa that is
  not reduced, such as \<open>18\<close> for \<open>1\<close> modulo 17, the difference of two abscissae can be a
  multiple of \<open>p\<close>, and then the two orders of addition give different coordinates.
\<close>

lemma unreduced_coordinates_not_commutative:
  "Point_add point_1_5 point_18_12 = Inr (Point (Some curve17) (Some 15) (Some 12))
   \<and> Point_add point_18_12 point_1_5 = Inr (Point (Some curve17) (Some 15) (Some 5))"
  by code_simp

section \<open>Properties of signing\<close>

subsection \<open>True division by two\<close>

lemma bit_length_bound: "n < 2 ^ k \<Longrightarrow> bit_length n \<le> k"
proof (induction k arbitrary: n)
  case 0
  then show ?case by (simp add: bit_length.simps [of n])
next
  case (Suc k)
  show ?case
  proof (cases "n \<le> 0")
    case True
    then show ?thesis by (simp add: bit_length.simps [of n])
  next
    case False
    have "n div 2 < 2 ^ k" using Suc.prems by simp
    then have "bit_length (n div 2) \<le> k" by (rule Suc.IH)
    then show ?thesis using False by (simp add: bit_length.simps [of n])
  qed
qed

lemma int_truediv_2_exact:
  assumes "0 < n" and "n < 2 ^ 53"
  shows "int_truediv_2 n = Inr \<lparr> mantissa = n, exponent = - 1 \<rparr>"
proof -
  have "bit_length \<bar>n\<bar> \<le> 53" using assms by (intro bit_length_bound) simp
  then have "round_53 \<bar>n\<bar> = n" using assms(1) by (simp add: round_53_def)
  moreover have "n < 2 ^ 1025"
  proof -
    have "n < 2 ^ 53" by (rule assms(2))
    also have "(2 ^ 53 :: int) < 2 ^ 1025" by (rule power_strict_increasing) simp_all
    finally show ?thesis .
  qed
  ultimately show ?thesis using assms(1) by (simp add: int_truediv_2_def)
qed

text \<open>
  While the group order is below \<open>2\<^sup>5\<^sup>3\<close>, the quotient \<open>n / 2\<close> is exact and every
  returned signature has \<open>s \<le> n / 2\<close>.
\<close>

lemma sign_low_s_small_order:
  assumes "gen_n generator < 2 ^ 53"
    and "sign sha256 sk secret_key message generator = Inr sg"
  shows "0 \<le> sig_s sg \<and> 2 * sig_s sg \<le> gen_n generator"
proof -
  let ?n = "gen_n generator"
  have n1: "1 < ?n"
    using assms(2) by (auto simp: sign_def Let_def split: if_splits)
  then have half: "int_truediv_2 ?n = Inr \<lparr> mantissa = ?n, exponent = - 1 \<rparr>"
    using int_truediv_2_exact [of ?n] assms(1) by simp
  let ?z = "int_from_bytes_big (sha256 (sha256 message))"
  have "\<not> ?n \<le> 1" using n1 by simp
  then have "bindE (rmul sk (gen_G generator)) (\<lambda>P.
           bindE (inv_mod sk ?n) (\<lambda>i.
           bindE (as_int (x_of P)) (\<lambda>r.
              bindE (int_truediv_2 ?n) (\<lambda>half.
              Inr \<lparr> sig_r = r,
                    sig_s = (if int_gt_float ((i * (?z + secret_key * r)) mod ?n) half
                             then ?n - (i * (?z + secret_key * r)) mod ?n
                             else (i * (?z + secret_key * r)) mod ?n) \<rparr>)))) = Inr sg"
    using assms(2) by (simp add: sign_def Let_def)
  then obtain i r h where h: "int_truediv_2 ?n = Inr h"
    and sg1: "sg = \<lparr> sig_r = r,
      sig_s = (if int_gt_float ((i * (?z + secret_key * r)) mod ?n) h
               then ?n - (i * (?z + secret_key * r)) mod ?n
               else (i * (?z + secret_key * r)) mod ?n) \<rparr>"
    unfolding bindE_Inr_iff by auto
  have sg0: "sg = \<lparr> sig_r = r,
      sig_s = (if int_gt_float ((i * (?z + secret_key * r)) mod ?n)
                    \<lparr> mantissa = ?n, exponent = - 1 \<rparr>
               then ?n - (i * (?z + secret_key * r)) mod ?n
               else (i * (?z + secret_key * r)) mod ?n) \<rparr>"
    using sg1 h half by simp
  define s where "s = (i * (?z + secret_key * r)) mod ?n"
  have s: "0 \<le> s" "s < ?n" using n1 by (simp_all add: s_def)
  have sg: "sig_s sg = (if int_gt_float s \<lparr> mantissa = ?n, exponent = - 1 \<rparr> then ?n - s else s)"
    unfolding s_def by (simp add: sg0)
  have "int_gt_float s \<lparr> mantissa = ?n, exponent = - 1 \<rparr> \<longleftrightarrow> ?n < s * 2"
    by (simp add: int_gt_float_def)
  then show ?thesis using s sg by auto
qed

subsection \<open>Signing on secp256k1\<close>

text \<open>
  Multiplying a point by 1 runs the loop once: the point is added to the identity, and
  its double is computed and dropped.
\<close>

lemma rmul_one:
  assumes "curve_p c \<noteq> 0"
  shows "rmul 1 (Point (Some c) (Some x) (Some y)) = Inr (Point (Some c) (Some x) (Some y))"
proof -
  let ?G = "Point (Some c) (Some x) (Some y)"
  obtain i where "inv_mod (2 * y) (curve_p c) = Inr i"
    using inv_mod_total [OF assms] by blast
  then obtain R where double: "Point_add ?G ?G = Inr R"
    by (simp add: Point_add_def bindE_def as_int_def as_curve_def Let_def)
  have first: "Point_add INF_point ?G = Inr ?G"
    by (simp add: Point_add_def)
  have "rmul_loop 1 INF_point ?G = rmul_loop 0 ?G R"
    by (subst rmul_loop.simps) (simp add: first double)
  also have "\<dots> = Inr ?G"
    by (subst rmul_loop.simps) simp
  finally show ?thesis by (simp add: rmul_def)
qed

lemma generator_fields:
  "gen_G secp256k1_generator = Point (Some secp256k1)
                 (Some 0x79BE667EF9DCBBAC55A06295CE870B07029BFCDB2DCE28D959F2815B16F81798)
                 (Some 0x483ADA7726A3C4655DA4FBFC0E1108A8FD17B448A68554199C47D08FFB10D4B8)"
  "curve_p secp256k1 \<noteq> 0"
  "\<not> gen_n secp256k1_generator \<le> 1"
  by (simp_all add: secp256k1_generator_def secp256k1_def)

text \<open>
  The order \<open>n\<close> of secp256k1 has 256 bits, and \<open>n / 2\<close> rounds up to the double \<open>2\<^sup>2\<^sup>5\<^sup>5\<close>.
\<close>

lemma half_n:
  "int_truediv_2 (gen_n secp256k1_generator) = Inr \<lparr> mantissa = 2 ^ 256, exponent = - 1 \<rparr>"
  by code_simp

lemma not_gt: "\<not> int_gt_float 0x7FFFFFFFFFFFFFFFFFFFFFFFFFFFFFFF5D576E7357A4501DDFE92F46681B20A1
   \<lparr> mantissa = 2 ^ 256, exponent = - 1 \<rparr>"
  by code_simp

lemma z_empty:
  "int_from_bytes_big (sha256_at_empty (sha256_at_empty []))
     = 0x5df6e0e2761359d30a8275058e299fcc0381534545f55cf43e41983f5d4c9456"
  by code_simp

lemma inv_one: "inv_mod 1 (gen_n secp256k1_generator) = Inr 1"
  by code_simp

lemma s_val2: "(0x5df6e0e2761359d30a8275058e299fcc0381534545f55cf43e41983f5d4c9456
    + 0xa57b795e2649113a8b8f410d2a9e3141d0bf28242a55aded2c4f571d2913347e
      * 0x79BE667EF9DCBBAC55A06295CE870B07029BFCDB2DCE28D959F2815B16F81798)
    mod gen_n secp256k1_generator = (0x7FFFFFFFFFFFFFFFFFFFFFFFFFFFFFFF5D576E7357A4501DDFE92F46681B20A1 :: int)"
  by code_simp

text \<open>
  C3. The claim is that every signature returned by \<open>sign\<close> has \<open>s \<le> n / 2\<close>. On
  secp256k1, signing the empty message with the secret key below, when the ephemeral
  scalar drawn is 1, returns \<open>s = (n + 1) / 2\<close>: the test \<open>s > n / 2\<close> compares with the
  double \<open>2\<^sup>2\<^sup>5\<^sup>5\<close>, which is larger than this \<open>s\<close>, so \<open>s\<close> is kept although \<open>2 s > n\<close>.
\<close>

theorem sign_high_s:
  "1 \<le> (0xa57b795e2649113a8b8f410d2a9e3141d0bf28242a55aded2c4f571d2913347e :: int)
   \<and> (0xa57b795e2649113a8b8f410d2a9e3141d0bf28242a55aded2c4f571d2913347e :: int)
        < gen_n secp256k1_generator
   \<and> (1 :: int) < gen_n secp256k1_generator
   \<and> sign sha256_at_empty 1 0xa57b795e2649113a8b8f410d2a9e3141d0bf28242a55aded2c4f571d2913347e []
        secp256k1_generator
      = Inr \<lparr> sig_r = 0x79BE667EF9DCBBAC55A06295CE870B07029BFCDB2DCE28D959F2815B16F81798,
              sig_s = 0x7FFFFFFFFFFFFFFFFFFFFFFFFFFFFFFF5D576E7357A4501DDFE92F46681B20A1 \<rparr>
   \<and> gen_n secp256k1_generator
        < 2 * (0x7FFFFFFFFFFFFFFFFFFFFFFFFFFFFFFF5D576E7357A4501DDFE92F46681B20A1 :: int)"
proof -
  have P: "rmul 1 (gen_G secp256k1_generator) = Inr (gen_G secp256k1_generator)"
    unfolding generator_fields(1) by (rule rmul_one [OF generator_fields(2)])
  have r: "as_int (x_of (gen_G secp256k1_generator))
      = Inr 0x79BE667EF9DCBBAC55A06295CE870B07029BFCDB2DCE28D959F2815B16F81798"
    by (simp add: generator_fields(1) as_int_def)
  have "sign sha256_at_empty 1 0xa57b795e2649113a8b8f410d2a9e3141d0bf28242a55aded2c4f571d2913347e []
        secp256k1_generator
      = Inr \<lparr> sig_r = 0x79BE667EF9DCBBAC55A06295CE870B07029BFCDB2DCE28D959F2815B16F81798,
              sig_s = 0x7FFFFFFFFFFFFFFFFFFFFFFFFFFFFFFF5D576E7357A4501DDFE92F46681B20A1 \<rparr>"
    unfolding sign_def Let_def
    by (simp only: generator_fields(3) if_False P r inv_one z_empty half_n bindE_def
        sum.case mult_1 s_val2 not_gt)
  moreover have "gen_n secp256k1_generator
        < 2 * (0x7FFFFFFFFFFFFFFFFFFFFFFFFFFFFFFF5D576E7357A4501DDFE92F46681B20A1 :: int)"
    "(0xa57b795e2649113a8b8f410d2a9e3141d0bf28242a55aded2c4f571d2913347e :: int)
        < gen_n secp256k1_generator"
    "(1 :: int) < gen_n secp256k1_generator"
    by (simp_all add: secp256k1_generator_def)
  ultimately show ?thesis by simp
qed

end
